theory Spec2Isabelle
  imports Complex_Main
begin

section \<open>Python values used by the script\<close>

text \<open>An exception value: the name of its class and the text that \<^verbatim>\<open>str(e)\<close> gives.\<close>

datatype exn = Exception string string

fun str_exn :: "exn \<Rightarrow> string" where
  "str_exn (Exception cls msg) = msg"

subsection \<open>Floats\<close>

text \<open>
  A float is a binary64 value: a finite one is the pair of an integer mantissa and a
  binary exponent, standing for \<open>m * 2 ^ e\<close>; the others are the two infinities
  (\<open>PyInf True\<close> the negative one) and NaN. The sign of a zero is not kept: nothing the
  script does tells the two zeros apart.
\<close>

datatype pyfloat = PyFloat int int | PyInf bool | PyNaN

text \<open>\<open>padding_percent\<close> is a Python number: an integer or a float.\<close>

datatype number = IntNum int | FloatNum pyfloat

fun bit_length :: "nat \<Rightarrow> nat" where
  "bit_length n = (if n = 0 then 0 else Suc (bit_length (n div 2)))"

declare bit_length.simps [simp del]

text \<open>The exponent \<open>e\<close> with \<open>2 ^ e \<le> a / b < 2 ^ (e + 1)\<close>, for positive \<open>a\<close> and \<open>b\<close>.\<close>

definition quotient_exponent :: "nat \<Rightarrow> nat \<Rightarrow> int" where
  "quotient_exponent a b =
     (let d = int (bit_length a) - int (bit_length b)
      in if (if 0 \<le> d then b * 2 ^ nat d \<le> a else b \<le> a * 2 ^ nat (- d)) then d else d - 1)"

text \<open>The integer nearest to \<open>n / d\<close>, the even one of the two on a tie.\<close>

definition round_half_even :: "nat \<Rightarrow> nat \<Rightarrow> nat" where
  "round_half_even n d =
     (let f = n div d; r = n mod d
      in if 2 * r < d then f else if d < 2 * r then f + 1 else if even f then f else f + 1)"

text \<open>
  The binary64 value nearest to \<open>x / y\<close> (round to nearest, ties to even, 53 bits, gradual
  underflow below \<open>2 ^ - 1022\<close>), as mantissa and exponent; \<open>None\<close> when the rounded value
  would reach \<open>2 ^ 1024\<close>.
\<close>

definition round_binary64 :: "nat \<Rightarrow> nat \<Rightarrow> (nat \<times> int) option" where
  "round_binary64 x y =
     (if x = 0 then Some (0, 0)
      else
        let e = max (quotient_exponent x y) (- 1022);
            sh = e - 52;
            m = (if 0 \<le> sh then round_half_even x (y * 2 ^ nat sh)
                 else round_half_even (x * 2 ^ nat (- sh)) y)
        in if 1024 \<le> e \<or> (e = 1023 \<and> m = 2 ^ 53) then None else Some (m, sh))"

text \<open>
  Python's \<^verbatim>\<open>a / b\<close> on two integers is the float nearest to the exact quotient,
  \<^verbatim>\<open>OverflowError\<close> when that float would be infinite.
\<close>

definition int_truediv :: "int \<Rightarrow> int \<Rightarrow> exn + pyfloat" where
  "int_truediv a b =
     (if b = 0 then Inl (Exception ''ZeroDivisionError'' ''division by zero'')
      else case round_binary64 (nat \<bar>a\<bar>) (nat \<bar>b\<bar>) of
             None \<Rightarrow>
               Inl (Exception ''OverflowError'' ''integer division result too large for a float'')
           | Some (m, sh) \<Rightarrow> Inr (PyFloat (sgn a * sgn b * int m) sh))"

text \<open>
  An integer operand of a float operation is converted first: the nearest float,
  \<^verbatim>\<open>OverflowError\<close> when there is none.
\<close>

definition int_to_float :: "int \<Rightarrow> exn + pyfloat" where
  "int_to_float a =
     (case round_binary64 (nat \<bar>a\<bar>) 1 of
        None \<Rightarrow> Inl (Exception ''OverflowError'' ''int too large to convert to float'')
      | Some (m, sh) \<Rightarrow> Inr (PyFloat (sgn a * int m) sh))"

text \<open>\<open>m * 2 ^ e\<close> as a numerator and a denominator.\<close>

definition fraction :: "nat \<Rightarrow> int \<Rightarrow> nat \<times> nat" where
  "fraction m e = (if 0 \<le> e then (m * 2 ^ nat e, 1) else (m, 2 ^ nat (- e)))"

definition make_float :: "bool \<Rightarrow> (nat \<times> int) option \<Rightarrow> pyfloat" where
  "make_float neg r =
     (case r of
        None \<Rightarrow> PyInf neg
      | Some (m, sh) \<Rightarrow> PyFloat (if neg then - int m else int m) sh)"

text \<open>
  Float multiplication: the exact product rounded, an infinity on overflow; it raises
  nothing.
\<close>

fun float_mul :: "pyfloat \<Rightarrow> pyfloat \<Rightarrow> pyfloat" where
  "float_mul (PyFloat m1 e1) (PyFloat m2 e2) =
     make_float (m1 * m2 < 0)
       (round_binary64 (fst (fraction (nat \<bar>m1 * m2\<bar>) (e1 + e2)))
                       (snd (fraction (nat \<bar>m1 * m2\<bar>) (e1 + e2))))"
| "float_mul (PyFloat m e) (PyInf neg) = (if m = 0 then PyNaN else PyInf (neg \<noteq> (m < 0)))"
| "float_mul (PyInf neg) (PyFloat m e) = (if m = 0 then PyNaN else PyInf (neg \<noteq> (m < 0)))"
| "float_mul (PyInf n1) (PyInf n2) = PyInf (n1 \<noteq> n2)"
| "float_mul PyNaN y = PyNaN"
| "float_mul x PyNaN = PyNaN"

text \<open>
  Float division: \<^verbatim>\<open>ZeroDivisionError\<close> on a zero divisor, otherwise the exact quotient
  rounded, an infinity on overflow.
\<close>

fun float_truediv :: "pyfloat \<Rightarrow> pyfloat \<Rightarrow> exn + pyfloat" where
  "float_truediv x (PyFloat m2 e2) =
     (if m2 = 0 then Inl (Exception ''ZeroDivisionError'' ''float division by zero'')
      else case x of
             PyFloat m1 e1 \<Rightarrow>
               Inr (make_float ((m1 < 0) \<noteq> (m2 < 0))
                 (if 0 \<le> e1 - e2
                  then round_binary64 (nat \<bar>m1\<bar> * 2 ^ nat (e1 - e2)) (nat \<bar>m2\<bar>)
                  else round_binary64 (nat \<bar>m1\<bar>) (nat \<bar>m2\<bar> * 2 ^ nat (e2 - e1))))
           | PyInf neg \<Rightarrow> Inr (PyInf (neg \<noteq> (m2 < 0)))
           | PyNaN \<Rightarrow> Inr PyNaN)"
| "float_truediv (PyFloat m1 e1) (PyInf neg) = Inr (PyFloat 0 0)"
| "float_truediv (PyInf n1) (PyInf n2) = Inr PyNaN"
| "float_truediv PyNaN (PyInf neg) = Inr PyNaN"
| "float_truediv x PyNaN = Inr PyNaN"

text \<open>
  \<^verbatim>\<open>int(x)\<close> on a float drops the fractional part (rounds toward zero); an infinity and
  NaN are refused.
\<close>

fun float_to_int :: "pyfloat \<Rightarrow> exn + int" where
  "float_to_int (PyFloat m e) =
     Inr (if 0 \<le> e then m * 2 ^ nat e
          else if 0 \<le> m then m div 2 ^ nat (- e)
          else - ((- m) div 2 ^ nat (- e)))"
| "float_to_int (PyInf neg) =
     Inl (Exception ''OverflowError'' ''cannot convert float infinity to integer'')"
| "float_to_int PyNaN = Inl (Exception ''ValueError'' ''cannot convert float NaN to integer'')"

text \<open>
  Lines 27 and 28: \<^verbatim>\<open>int(old * padding_percent / 100)\<close>. With an integer percentage the
  product is exact and the division is the true division of two integers; with a float
  percentage the integer is converted, the product is a float product, and that float is
  divided by the float 100.
\<close>

definition calc_padding :: "int \<Rightarrow> number \<Rightarrow> exn + int" where
  "calc_padding old padding_percent =
     (case (case padding_percent of
              IntNum i \<Rightarrow> int_truediv (old * i) 100
            | FloatNum f \<Rightarrow>
                (case int_to_float old of
                   Inl e \<Rightarrow> Inl e
                 | Inr old_f \<Rightarrow>
                     (case int_to_float 100 of
                        Inl e \<Rightarrow> Inl e
                      | Inr hundred \<Rightarrow> float_truediv (float_mul old_f f) hundred))) of
        Inl e \<Rightarrow> Inl e
      | Inr x \<Rightarrow> float_to_int x)"

subsection \<open>Decimal text of an integer\<close>

text \<open>\<^verbatim>\<open>str(n)\<close>, as the f-strings of the report lines format their numbers.\<close>

fun str_nat :: "nat \<Rightarrow> string" where
  "str_nat n =
     (if n < 10 then [''0123456789'' ! n]
      else str_nat (n div 10) @ [''0123456789'' ! (n mod 10)])"

declare str_nat.simps [simp del]

definition str_int :: "int \<Rightarrow> string" where
  "str_int i = (if i < 0 then CHR ''-'' # str_nat (nat (- i)) else str_nat (nat i))"


section \<open>Images, the imaging library and the process\<close>

text \<open>
  An image has a mode, a size \<open>(width, height)\<close> and pixels; a pixel is its four band
  values \<open>(r, g, b, a)\<close>. Pixel \<open>(x, y)\<close> belongs to the image when \<open>0 \<le> x < width\<close> and
  \<open>0 \<le> y < height\<close>.
\<close>

type_synonym pixel = "nat \<times> nat \<times> nat \<times> nat"

record image =
  mode :: string
  isize :: "int \<times> int"
  getpixel :: "int \<times> int \<Rightarrow> pixel"

fun alpha :: "pixel \<Rightarrow> nat" where
  "alpha (r, g, b, a) = a"

text \<open>
  The script calls Pillow for everything it does to an image, and the interpreter for its
  files and streams. What those calls compute inside (the codecs, the mode conversion, the
  Lanczos filter, the blend arithmetic, the text of a float and of an error) and when the
  machine fails them (memory, permissions, a stream that cannot take a line) is a parameter
  of the model; what the calls do to sizes, modes and regions is written out below.
\<close>

record pil =
  open_error :: "string \<Rightarrow> exn"
  decode :: "string \<Rightarrow> exn + image"
  to_rgba :: "image \<Rightarrow> int \<times> int \<Rightarrow> pixel"
  c_int_error :: "int \<times> int \<Rightarrow> string"
  alloc_error :: "int \<times> int \<Rightarrow> exn option"
  resize_error :: "int \<times> int \<Rightarrow> int \<times> int \<Rightarrow> exn option"
  resample :: "image \<Rightarrow> int \<times> int \<Rightarrow> int \<times> int \<Rightarrow> pixel"
  blend :: "pixel \<Rightarrow> pixel \<Rightarrow> nat \<Rightarrow> pixel"
  encode_png :: "image \<Rightarrow> string"
  save_error :: "(string \<rightharpoonup> string) \<Rightarrow> string \<Rightarrow> image \<Rightarrow> (exn \<times> (string \<rightharpoonup> string)) option"
  print_error :: "string list \<Rightarrow> string \<Rightarrow> exn option"
  float_repr :: "pyfloat \<Rightarrow> string"
  traceback :: "exn \<Rightarrow> exn \<Rightarrow> string list"

text \<open>The process sees files (path to content) and writes lines to its two streams.\<close>

record world =
  files :: "string \<rightharpoonup> string"
  stdout :: "string list"
  stderr :: "string list"

text \<open>
  \<^verbatim>\<open>print(line)\<close> writes to standard output, or raises when the stream cannot take the
  line (an encoding without the character, a closed stream) and writes nothing.
\<close>

definition print :: "pil \<Rightarrow> string \<Rightarrow> world \<Rightarrow> exn option \<times> world" where
  "print lib line w =
     (case print_error lib (stdout w) line of
        Some e \<Rightarrow> (Some e, w)
      | None \<Rightarrow> (None, w\<lparr>stdout := stdout w @ [line]\<rparr>))"

text \<open>Consecutive \<^verbatim>\<open>print\<close> statements: the first that raises ends them.\<close>

fun print_all :: "pil \<Rightarrow> string list \<Rightarrow> world \<Rightarrow> exn option \<times> world" where
  "print_all lib [] w = (None, w)"
| "print_all lib (line # rest) w =
     (case print lib line w of
        (Some e, w') \<Rightarrow> (Some e, w')
      | (None, w') \<Rightarrow> print_all lib rest w')"

text \<open>The text of a number in an f-string.\<close>

definition str_number :: "pil \<Rightarrow> number \<Rightarrow> string" where
  "str_number lib p = (case p of IntNum i \<Rightarrow> str_int i | FloatNum f \<Rightarrow> float_repr lib f)"

text \<open>\<^verbatim>\<open>Image.open(path)\<close>: a missing file raises, an existing one is decoded.\<close>

definition Image_open :: "pil \<Rightarrow> world \<Rightarrow> string \<Rightarrow> exn + image" where
  "Image_open lib w path =
     (case files w path of
        None \<Rightarrow> Inl (open_error lib path)
      | Some content \<Rightarrow> decode lib content)"

text \<open>\<^verbatim>\<open>img.convert(m)\<close>: same size, new mode.\<close>

definition Image_convert :: "pil \<Rightarrow> image \<Rightarrow> string \<Rightarrow> image" where
  "Image_convert lib img m = \<lparr>mode = m, isize = isize img, getpixel = to_rgba lib img\<rparr>"

text \<open>
  \<^verbatim>\<open>Image.new(mode, size, color)\<close>: a negative width or height is refused, and so is one
  that does not fit a C int; otherwise, memory permitting, every pixel has the given
  colour.
\<close>

definition Image_new :: "pil \<Rightarrow> string \<Rightarrow> int \<times> int \<Rightarrow> pixel \<Rightarrow> exn + image" where
  "Image_new lib m sz color =
     (if fst sz < 0 \<or> snd sz < 0
      then Inl (Exception ''ValueError'' ''Width and height must be >= 0'')
      else if 2 ^ 31 \<le> fst sz \<or> 2 ^ 31 \<le> snd sz
      then Inl (Exception ''OverflowError'' (c_int_error lib sz))
      else case alloc_error lib sz of
             Some e \<Rightarrow> Inl e
           | None \<Rightarrow> Inr \<lparr>mode = m, isize = sz, getpixel = (\<lambda>xy. color)\<rparr>)"

text \<open>\<^verbatim>\<open>img.resize(size, Image.Resampling.LANCZOS)\<close>: an image of the requested size.\<close>

definition Image_resize :: "pil \<Rightarrow> image \<Rightarrow> int \<times> int \<Rightarrow> exn + image" where
  "Image_resize lib img sz =
     (case resize_error lib (isize img) sz of
        Some e \<Rightarrow> Inl e
      | None \<Rightarrow> Inr \<lparr>mode = mode img, isize = sz, getpixel = resample lib img sz\<rparr>)"

text \<open>
  \<^verbatim>\<open>dst.paste(src, (x0, y0), mask)\<close>: inside the box of \<open>src\<close>'s size at \<open>(x0, y0)\<close>,
  clipped to \<open>dst\<close>, each pixel is blended with the source pixel by the mask's alpha;
  every other pixel of \<open>dst\<close> is left as it is.
\<close>

definition Image_paste :: "pil \<Rightarrow> image \<Rightarrow> image \<Rightarrow> int \<times> int \<Rightarrow> image \<Rightarrow> image" where
  "Image_paste lib dst src box mask_im =
     dst\<lparr>getpixel := (\<lambda>(x, y).
        if fst box \<le> x \<and> x < fst box + fst (isize src) \<and> 0 \<le> x \<and> x < fst (isize dst) \<and>
           snd box \<le> y \<and> y < snd box + snd (isize src) \<and> 0 \<le> y \<and> y < snd (isize dst)
        then blend lib (getpixel dst (x, y)) (getpixel src (x - fst box, y - snd box))
               (alpha (getpixel mask_im (x - fst box, y - snd box)))
        else getpixel dst (x, y))\<rparr>"

text \<open>
  \<^verbatim>\<open>img.save(path, 'PNG')\<close>: the file at \<open>path\<close> becomes the PNG encoding of the image,
  unless the save fails (the path, the image), which may leave the files in another state.
\<close>

definition Image_save :: "pil \<Rightarrow> world \<Rightarrow> image \<Rightarrow> string \<Rightarrow> exn option \<times> world" where
  "Image_save lib w img path =
     (case save_error lib (files w) path img of
        Some (e, fs) \<Rightarrow> (Some e, w\<lparr>files := fs\<rparr>)
      | None \<Rightarrow> (None, w\<lparr>files := (files w)(path \<mapsto> encode_png lib img)\<rparr>))"

section \<open>The script\<close>

text \<open>The texts of the four \<^verbatim>\<open>print\<close> statements of lines 47 to 50.\<close>

definition report ::
  "pil \<Rightarrow> string \<Rightarrow> number \<Rightarrow> int \<times> int \<Rightarrow> int \<times> int \<Rightarrow> int \<times> int \<Rightarrow> string list" where
  "report lib output_path padding_percent old new pad =
     [[CHR 0xE2, CHR 0x9C, CHR 0x93] @ '' Created padded icon: '' @ output_path,
      ''  Original size: '' @ str_int (fst old) @ ''x'' @ str_int (snd old),
      ''  New size: '' @ str_int (fst new) @ ''x'' @ str_int (snd new),
      ''  Padding: '' @ str_number lib padding_percent @ ''% ('' @ str_int (fst pad)
         @ ''px horizontal, '' @ str_int (snd pad) @ ''px vertical)'']"

text \<open>
  \<^verbatim>\<open>add_padding(input_path, output_path, padding_percent)\<close>, lines 7 to 50. The result
  is the exception raised, or \<open>()\<close> for a normal return, with the world the call leaves.
\<close>

definition add_padding :: "pil \<Rightarrow> string \<Rightarrow> string \<Rightarrow> number \<Rightarrow> world \<Rightarrow> (exn + unit) \<times> world" where
  "add_padding lib input_path output_path padding_percent w =
     (case Image_open lib w input_path of
        Inl e \<Rightarrow> (Inl e, w)
      | Inr img0 \<Rightarrow>
     let img = (if mode img0 \<noteq> ''RGBA'' then Image_convert lib img0 ''RGBA'' else img0);
         old_width = fst (isize img);
         old_height = snd (isize img)
     in
     case calc_padding old_width padding_percent of
        Inl e \<Rightarrow> (Inl e, w)
      | Inr padding_x \<Rightarrow>
     case calc_padding old_height padding_percent of
        Inl e \<Rightarrow> (Inl e, w)
      | Inr padding_y \<Rightarrow>
     let new_width = old_width + (2 * padding_x);
         new_height = old_height + (2 * padding_y)
     in
     case Image_new lib ''RGBA'' (new_width, new_height) (0, 0, 0, 0) of
        Inl e \<Rightarrow> (Inl e, w)
      | Inr new_img \<Rightarrow>
     let content_width = new_width - (2 * padding_x);
         content_height = new_height - (2 * padding_y)
     in
     case Image_resize lib img (content_width, content_height) of
        Inl e \<Rightarrow> (Inl e, w)
      | Inr img_resized \<Rightarrow>
     let new_img = Image_paste lib new_img img_resized (padding_x, padding_y) img_resized
     in
     case Image_save lib w new_img output_path of
        (Some e, w') \<Rightarrow> (Inl e, w')
      | (None, w') \<Rightarrow>
     case print_all lib
            (report lib output_path padding_percent (old_width, old_height)
               (new_width, new_height) (padding_x, padding_y))
            w' of
        (Some e, w'') \<Rightarrow> (Inl e, w'')
      | (None, w'') \<Rightarrow> (Inr (), w''))"

text \<open>
  The entry point, lines 52 to 60: the result is the exit status and the world the process
  leaves. An exception of the handler's own \<^verbatim>\<open>print\<close> is caught by nothing: the
  interpreter writes its traceback to standard error and the status is 1 as well.
\<close>

definition main :: "pil \<Rightarrow> world \<Rightarrow> int \<times> world" where
  "main lib w =
     (let input_file = ''assets/icon/gitvault.png'';
          output_file = ''assets/icon/gitvault_padded.png''
      in case add_padding lib input_file output_file (IntNum 20) w of
           (Inl e, w') \<Rightarrow>
             (case print lib (''Error: '' @ str_exn e) w' of
                (None, w'') \<Rightarrow> (1, w'')
              | (Some e', w'') \<Rightarrow> (1, w''\<lparr>stderr := stderr w'' @ traceback lib e e'\<rparr>))
         | (Inr u, w') \<Rightarrow> (0, w'))"

section \<open>Names used in the statements\<close>

text \<open>The image the script works on after lines 20 and 21.\<close>

abbreviation as_rgba :: "pil \<Rightarrow> image \<Rightarrow> image" where
  "as_rgba lib img0 \<equiv> (if mode img0 \<noteq> ''RGBA'' then Image_convert lib img0 ''RGBA'' else img0)"

text \<open>
  The specification's padding: \<open>floor (old * padding_percent / 100)\<close> in exact arithmetic,
  on the exact value of the number.
\<close>

fun float_value :: "pyfloat \<Rightarrow> rat" where
  "float_value (PyFloat m e) = of_int m * 2 powi e"
| "float_value (PyInf neg) = 0"
| "float_value PyNaN = 0"

fun number_value :: "number \<Rightarrow> rat" where
  "number_value (IntNum i) = of_int i"
| "number_value (FloatNum f) = float_value f"

definition floor_padding :: "int \<Rightarrow> number \<Rightarrow> int" where
  "floor_padding old p = \<lfloor>of_int old * number_value p / 100\<rfloor>"

text \<open>The documented precondition \<^verbatim>\<open>padding_percent >= 0\<close>.\<close>

fun nonneg :: "number \<Rightarrow> bool" where
  "nonneg (IntNum i) = (0 \<le> i)"
| "nonneg (FloatNum (PyFloat m e)) = (0 \<le> m)"
| "nonneg (FloatNum (PyInf neg)) = (\<not> neg)"
| "nonneg (FloatNum PyNaN) = False"

subsection \<open>A stand-in library for worked instances\<close>

text \<open>
  A library that never fails, whose file format writes the width and the height in unary
  (\<open>W\<close> and \<open>H\<close> for positive, \<open>w\<close> and \<open>h\<close> for negative values) and whose images are
  opaque white. It instantiates the library parameter in the worked instances below.
\<close>

definition count_char :: "char \<Rightarrow> string \<Rightarrow> int" where
  "count_char c s = int (length (filter (\<lambda>d. d = c) s))"

definition sample_image :: "int \<Rightarrow> int \<Rightarrow> image" where
  "sample_image W H = \<lparr>mode = ''RGBA'', isize = (W, H), getpixel = (\<lambda>xy. (255, 255, 255, 255))\<rparr>"

definition example_pil :: pil where
  "example_pil =
     \<lparr>open_error = (\<lambda>path. Exception ''FileNotFoundError''
         (''[Errno 2] No such file or directory: '' @ [CHR 0x27] @ path @ [CHR 0x27])),
      decode = (\<lambda>s. Inr (sample_image (count_char CHR ''W'' s - count_char CHR ''w'' s)
                              (count_char CHR ''H'' s - count_char CHR ''h'' s))),
      to_rgba = getpixel,
      c_int_error = (\<lambda>sz. ''signed integer is greater than maximum''),
      alloc_error = (\<lambda>sz. None),
      resize_error = (\<lambda>old sz. None),
      resample = (\<lambda>img sz. getpixel img),
      blend = (\<lambda>dst src a. if a = 0 then dst else src),
      encode_png = (\<lambda>img.
         replicate (nat (fst (isize img))) CHR ''W'' @ replicate (nat (- fst (isize img))) CHR ''w'' @
         replicate (nat (snd (isize img))) CHR ''H'' @ replicate (nat (- snd (isize img))) CHR ''h''),
      save_error = (\<lambda>fs path img. None),
      print_error = (\<lambda>out line. None),
      float_repr = (\<lambda>f. ''float''),
      traceback = (\<lambda>e e'. [''Traceback (most recent call last):''])\<rparr>"

definition example_world :: "int \<Rightarrow> int \<Rightarrow> world" where
  "example_world W H =
     \<lparr>files = [''assets/icon/gitvault.png'' \<mapsto> encode_png example_pil (sample_image W H)],
      stdout = [], stderr = []\<rparr>"

section \<open>Rounding to binary64\<close>

lemma bit_length_le: "n < 2 ^ k \<Longrightarrow> bit_length n \<le> k"
proof (induction k arbitrary: n)
  case 0
  then show ?case by (simp add: bit_length.simps)
next
  case (Suc k)
  show ?case
  proof (cases "n = 0")
    case True
    then show ?thesis by (simp add: bit_length.simps)
  next
    case False
    from Suc.prems have "n div 2 < 2 ^ k" by simp
    then have "bit_length (n div 2) \<le> k" by (rule Suc.IH)
    with False show ?thesis by (subst bit_length.simps) simp
  qed
qed

lemma bit_length_upper: "n < 2 ^ bit_length n"
proof (induction n rule: bit_length.induct)
  case (1 n)
  show ?case
  proof (cases "n = 0")
    case True
    then show ?thesis by simp
  next
    case False
    then have "n div 2 < 2 ^ bit_length (n div 2)" by (rule "1.IH")
    then have "n < 2 * 2 ^ bit_length (n div 2)" by linarith
    with False show ?thesis by (subst bit_length.simps) simp
  qed
qed

lemma bit_length_lower: "0 < n \<Longrightarrow> 2 ^ (bit_length n - 1) \<le> n"
proof (induction n rule: bit_length.induct)
  case (1 n)
  show ?case
  proof (cases "n div 2 = 0")
    case True
    with "1.prems" have "n = 1" by linarith
    then show ?thesis by (simp add: bit_length.simps)
  next
    case False
    with "1.prems" "1.IH" have ih: "2 ^ (bit_length (n div 2) - 1) \<le> n div 2" by simp
    have pos: "0 < bit_length (n div 2)" using False by (subst bit_length.simps) simp
    have "bit_length n = Suc (bit_length (n div 2))"
      using "1.prems" by (subst bit_length.simps) simp
    then have "(2::nat) ^ (bit_length n - 1) = 2 * 2 ^ (bit_length (n div 2) - 1)"
      using pos by (cases "bit_length (n div 2)") simp_all
    also have "\<dots> \<le> 2 * (n div 2)" using ih by simp
    also have "\<dots> \<le> n" by simp
    finally show ?thesis .
  qed
qed

lemma bit_length_100: "bit_length 100 = 7"
  by (simp add: bit_length.simps)

lemma quotient_exponent_lower:
  assumes a: "0 < a" and b: "0 < b" and e: "0 \<le> quotient_exponent a b"
  shows "b * 2 ^ nat (quotient_exponent a b) \<le> a"
proof -
  define d where "d = int (bit_length a) - int (bit_length b)"
  have qe: "quotient_exponent a b =
      (if (if 0 \<le> d then b * 2 ^ nat d \<le> a else b \<le> a * 2 ^ nat (- d)) then d else d - 1)"
    unfolding quotient_exponent_def Let_def d_def by (rule refl)
  show ?thesis
  proof (cases "if 0 \<le> d then b * 2 ^ nat d \<le> a else b \<le> a * 2 ^ nat (- d)")
    case True
    then have q: "quotient_exponent a b = d"
      unfolding qe by (rule if_P)
    with e True show ?thesis by simp
  next
    case False
    then have q: "quotient_exponent a b = d - 1"
      unfolding qe by (rule if_not_P)
    with e have d1: "1 \<le> d" by simp
    then have la: "bit_length a = bit_length b + nat d" by (simp add: d_def)
    have "b * 2 ^ nat (d - 1) < 2 ^ bit_length b * 2 ^ nat (d - 1)"
      using bit_length_upper [of b] by simp
    also have "\<dots> = 2 ^ (bit_length b + nat (d - 1))" by (simp add: power_add)
    also have "bit_length b + nat (d - 1) = bit_length a - 1" using la d1 by (simp add: nat_diff_distrib)
    also have "2 ^ (bit_length a - 1) \<le> a" using a by (rule bit_length_lower)
    finally show ?thesis using q by simp
  qed
qed

lemma round_half_even_lower: "0 < d \<Longrightarrow> n div d \<le> round_half_even n d"
  by (simp add: round_half_even_def Let_def)

lemma round_half_even_upper: "0 < d \<Longrightarrow> 2 * (d * round_half_even n d) \<le> 2 * n + d"
proof -
  assume d: "0 < d"
  have eq: "d * (n div d) + n mod d = n" by simp
  define f where "f = n div d"
  define r where "r = n mod d"
  have n: "n = d * f + r" using eq by (simp add: f_def r_def)
  show ?thesis
    unfolding round_half_even_def Let_def f_def [symmetric] r_def [symmetric]
    by (auto simp: n algebra_simps)
qed

lemma round_half_even_le:
  assumes d: "0 < d" and n: "n \<le> K * d"
  shows "round_half_even n d \<le> K"
proof (rule ccontr)
  assume "\<not> round_half_even n d \<le> K"
  then have "K + 1 \<le> round_half_even n d" by simp
  then have "d * (K + 1) \<le> d * round_half_even n d" by (rule mult_le_mono2)
  then have "2 * (d * (K + 1)) \<le> 2 * n + d"
    using round_half_even_upper [OF d, of n] by linarith
  then have "2 * (K * d) + 2 * d \<le> 2 * n + d" by (simp add: algebra_simps)
  with n d show False by linarith
qed

lemma round_half_even_ge:
  assumes d: "0 < d" and n: "K * d \<le> n"
  shows "K \<le> round_half_even n d"
proof -
  have "K \<le> n div d" using n d by (simp add: less_eq_div_iff_mult_less_eq)
  also have "\<dots> \<le> round_half_even n d" using d by (rule round_half_even_lower)
  finally show ?thesis .
qed

lemma round_binary64_zero: "round_binary64 0 y = Some (0, 0)"
  by (simp add: round_binary64_def)

lemma round_binary64_SomeD:
  assumes "round_binary64 x y = Some (m, sh)" and "0 < x"
  shows "sh = max (quotient_exponent x y) (- 1022) - 52"
    and "m = (if 0 \<le> sh then round_half_even x (y * 2 ^ nat sh)
              else round_half_even (x * 2 ^ nat (- sh)) y)"
proof -
  define e where "e = max (quotient_exponent x y) (- 1022)"
  define m' where "m' = (if 0 \<le> e - 52 then round_half_even x (y * 2 ^ nat (e - 52))
                         else round_half_even (x * 2 ^ nat (- (e - 52))) y)"
  have "round_binary64 x y = (if 1024 \<le> e \<or> (e = 1023 \<and> m' = 2 ^ 53) then None else Some (m', e - 52))"
    using assms(2) unfolding round_binary64_def Let_def e_def m'_def by simp
  with assms(1) have "m = m'" "sh = e - 52" by (simp_all split: if_splits)
  then show "sh = max (quotient_exponent x y) (- 1022) - 52"
    and "m = (if 0 \<le> sh then round_half_even x (y * 2 ^ nat sh)
              else round_half_even (x * 2 ^ nat (- sh)) y)"
    by (simp_all add: e_def m'_def)
qed

lemma round_binary64_lower:
  assumes r: "round_binary64 x y = Some (m, sh)" and y: "0 < y"
    and le: "N * y \<le> x" and N: "N < 2 ^ 53"
  shows "N * 2 ^ nat (- sh) \<le> m * 2 ^ nat sh"
proof (cases "x = 0")
  case True
  with le y have "N = 0" by simp
  then show ?thesis by simp
next
  case False
  then have x: "0 < x" by simp
  note d = round_binary64_SomeD [OF r x]
  show ?thesis
  proof (cases "0 \<le> sh")
    case True
    define t where "t = nat sh"
    have m: "m = round_half_even x (y * 2 ^ t)" using d(2) True by (simp add: t_def)
    have qe: "quotient_exponent x y = sh + 52" using d(1) True by linarith
    then have "y * 2 ^ nat (sh + 52) \<le> x"
      using quotient_exponent_lower [OF x y] True by simp
    moreover have "nat (sh + 52) = 52 + t" using True by (simp add: t_def nat_add_distrib)
    ultimately have big: "2 ^ 52 * (y * 2 ^ t) \<le> x" by (simp add: power_add mult_ac)
    have "N \<le> m * 2 ^ t"
    proof (cases "t = 0")
      case True
      then show ?thesis using round_half_even_ge [OF y, of N x] le m by simp
    next
      case False
      have "0 < y * 2 ^ t" using y by simp
      then have "2 ^ 52 \<le> m" unfolding m using big by (rule round_half_even_ge)
      moreover have "(2::nat) \<le> 2 ^ t" using False by (cases t) simp_all
      ultimately have "2 ^ 52 * 2 \<le> m * 2 ^ t" by (rule mult_le_mono)
      with N show ?thesis by simp
    qed
    then show ?thesis using True by (simp add: t_def)
  next
    case False
    define s where "s = nat (- sh)"
    have m: "m = round_half_even (x * 2 ^ s) y" using d(2) False by (simp add: s_def)
    have "N * 2 ^ s * y \<le> x * 2 ^ s" using le by (simp add: mult_ac)
    then have "N * 2 ^ s \<le> m" unfolding m using y round_half_even_ge by blast
    then show ?thesis using False by (simp add: s_def)
  qed
qed

lemma round_binary64_upper:
  assumes r: "round_binary64 x y = Some (m, sh)" and y: "0 < y"
    and le: "x \<le> N * y" and N: "N < 2 ^ 53"
  shows "m * 2 ^ nat sh \<le> N * 2 ^ nat (- sh)"
proof (cases "x = 0")
  case True
  with r have "m = 0" by (simp add: round_binary64_zero)
  then show ?thesis by simp
next
  case False
  then have x: "0 < x" by simp
  note d = round_binary64_SomeD [OF r x]
  show ?thesis
  proof (cases "0 \<le> sh")
    case True
    define t where "t = nat sh"
    have m: "m = round_half_even x (y * 2 ^ t)" using d(2) True by (simp add: t_def)
    have qe: "quotient_exponent x y = sh + 52" using d(1) True by linarith
    then have "y * 2 ^ nat (sh + 52) \<le> x"
      using quotient_exponent_lower [OF x y] True by simp
    moreover have "nat (sh + 52) = 52 + t" using True by (simp add: t_def nat_add_distrib)
    ultimately have "y * 2 ^ (52 + t) \<le> x" by simp
    then have "y * 2 ^ (52 + t) \<le> N * y" using le by (rule order_trans)
    then have "2 ^ (52 + t) * y \<le> N * y" by (simp add: mult.commute)
    then have "2 ^ (52 + t) \<le> N" using y by simp
    with N have "(2::nat) ^ (52 + t) < 2 ^ 53" by linarith
    then have "52 + t < 53" by (simp only: power_strict_increasing_iff)
    then have t0: "t = 0" by simp
    have "m \<le> N" unfolding m t0 using y le by (simp add: round_half_even_le)
    then show ?thesis using True t0 by (simp add: t_def)
  next
    case False
    define s where "s = nat (- sh)"
    have m: "m = round_half_even (x * 2 ^ s) y" using d(2) False by (simp add: s_def)
    have "x * 2 ^ s \<le> N * 2 ^ s * y" using le by (simp add: mult_ac)
    then have "m \<le> N * 2 ^ s" unfolding m using y round_half_even_le by blast
    then show ?thesis using False by (simp add: s_def)
  qed
qed

lemma float_to_int_ge:
  assumes "N * 2 ^ nat (- sh) \<le> m * 2 ^ nat sh"
  shows "float_to_int (PyFloat (int m) sh) = Inr k \<Longrightarrow> int N \<le> k"
proof (cases "0 \<le> sh")
  case True
  assume "float_to_int (PyFloat (int m) sh) = Inr k"
  then have k: "k = int (m * 2 ^ nat sh)" using True by simp
  from assms True have "N \<le> m * 2 ^ nat sh" by simp
  then show ?thesis unfolding k by (simp only: of_nat_le_iff)
next
  case False
  assume "float_to_int (PyFloat (int m) sh) = Inr k"
  then have "k = int (m div 2 ^ nat (- sh))" using False by (simp add: zdiv_int)
  moreover have "N \<le> m div 2 ^ nat (- sh)"
    using assms False by (simp add: less_eq_div_iff_mult_less_eq)
  ultimately show ?thesis by simp
qed

lemma float_to_int_le:
  assumes "m * 2 ^ nat sh \<le> N * 2 ^ nat (- sh)"
  shows "float_to_int (PyFloat (int m) sh) = Inr k \<Longrightarrow> k \<le> int N"
proof (cases "0 \<le> sh")
  case True
  assume "float_to_int (PyFloat (int m) sh) = Inr k"
  then have k: "k = int (m * 2 ^ nat sh)" using True by simp
  from assms True have "m * 2 ^ nat sh \<le> N" by simp
  then show ?thesis unfolding k by (simp only: of_nat_le_iff)
next
  case False
  assume "float_to_int (PyFloat (int m) sh) = Inr k"
  then have "k = int (m div 2 ^ nat (- sh))" using False by (simp add: zdiv_int)
  moreover have "m div 2 ^ nat (- sh) \<le> N"
  proof -
    have "m div 2 ^ nat (- sh) \<le> (N * 2 ^ nat (- sh)) div 2 ^ nat (- sh)"
      using assms False by (intro div_le_mono) simp
    then show ?thesis by simp
  qed
  ultimately show ?thesis by simp
qed

lemma float_to_int_nonneg: "0 \<le> m \<Longrightarrow> float_to_int (PyFloat m sh) = Inr k \<Longrightarrow> 0 \<le> k"
  by (auto simp: pos_imp_zdiv_nonneg_iff split: if_splits)

section \<open>The padding of an integer percentage\<close>

lemma quotient_exponent_100_le:
  assumes "x < 100 * 2 ^ 47"
  shows "quotient_exponent x 100 \<le> 46"
proof -
  have "x < 2 ^ 54" using assms by simp
  then have bl: "bit_length x \<le> 54" by (rule bit_length_le)
  have mono: "100 * 2 ^ n \<le> x \<Longrightarrow> n < 47" for n :: nat
  proof (rule ccontr)
    assume le: "100 * 2 ^ n \<le> x" and "\<not> n < 47"
    then have "(2::nat) ^ 47 \<le> 2 ^ n" by (intro power_increasing) simp_all
    with le assms show False by simp
  qed
  show ?thesis
    unfolding quotient_exponent_def Let_def bit_length_100
    using bl mono [of "nat (int (bit_length x) - 7)"]
    by (auto split: if_splits)
qed

lemma round_shift_div:
  assumes P: "64 \<le> P"
  shows "round_half_even (x * P) 100 div P = x div 100"
proof (rule div_nat_eqI)
  have "x div 100 * 100 \<le> x" by simp
  then have "x div 100 * P * 100 \<le> x * P"
    by (metis mult.assoc mult.commute mult_le_mono1)
  then have "x div 100 * P \<le> (x * P) div 100"
    by (simp add: less_eq_div_iff_mult_less_eq)
  also have "\<dots> \<le> round_half_even (x * P) 100"
    by (rule round_half_even_lower) simp
  finally show "P * (x div 100) \<le> round_half_even (x * P) 100" by (simp add: mult.commute)
next
  have up: "2 * (100 * round_half_even (x * P) 100) \<le> 2 * (x * P) + 100"
    by (rule round_half_even_upper) simp
  have "x < 100 * (x div 100) + 100"
    by (metis add.commute div_mult_mod_eq mult.commute mod_less_divisor
        zero_less_numeral add_less_cancel_left)
  then have "x + 1 \<le> 100 * (x div 100) + 100" by simp
  then have "(x + 1) * P \<le> (100 * (x div 100) + 100) * P" by (rule mult_le_mono1)
  then have "x * P + P \<le> 100 * (x div 100) * P + 100 * P" by (simp add: algebra_simps)
  with up P show "round_half_even (x * P) 100 < P * Suc (x div 100)"
    by (simp add: algebra_simps)
qed

text \<open>Below \<open>2 ^ 47\<close> the true division by 100, truncated, is the floor.\<close>

lemma calc_padding_floor:
  assumes nonneg: "0 \<le> old * i" and small: "(old * i) div 100 < 2 ^ 47"
  shows "calc_padding old (IntNum i) = Inr ((old * i) div 100)"
proof (cases "old * i = 0")
  case True
  have z: "int_truediv 0 100 = Inr (PyFloat 0 0)"
    by (simp add: int_truediv_def round_binary64_zero)
  have "calc_padding old (IntNum i) =
      (case int_truediv (old * i) 100 of Inl e \<Rightarrow> Inl e | Inr x \<Rightarrow> float_to_int x)"
    by (simp add: calc_padding_def)
  also have "\<dots> = Inr 0" unfolding True z by simp
  finally show ?thesis unfolding True by simp
next
  case False
  define a where "a = old * i"
  have pos: "0 < a" unfolding a_def using nonneg False by linarith
  have "a < 100 * 2 ^ 47" using small by (simp add: a_def)
  then have x: "nat a < 100 * 2 ^ 47" using pos by (simp add: nat_less_iff)
  define e where "e = max (quotient_exponent (nat a) 100) (- 1022)"
  have e: "e \<le> 46" using quotient_exponent_100_le [OF x] by (simp add: e_def)
  define s where "s = nat (52 - e)"
  define P where "P = (2::nat) ^ s"
  have "6 \<le> s" using e by (simp add: s_def)
  then have "(2::nat) ^ 6 \<le> 2 ^ s" by (intro power_increasing) simp_all
  then have P: "64 \<le> P" by (simp add: P_def)
  define m where "m = round_half_even (nat a * P) 100"
  have "round_binary64 (nat a) 100 = Some (m, e - 52)"
    unfolding round_binary64_def Let_def
    using pos e by (simp add: e_def [symmetric] m_def P_def s_def)
  then have "int_truediv a 100 = Inr (PyFloat (int m) (e - 52))"
    using pos by (simp add: int_truediv_def)
  moreover have "float_to_int (PyFloat (int m) (e - 52)) = Inr (a div 100)"
  proof -
    have "float_to_int (PyFloat (int m) (e - 52)) = Inr (int m div 2 ^ s)"
      using e by (simp add: s_def)
    also have "int m div 2 ^ s = int (m div P)" by (simp add: P_def zdiv_int)
    also have "m div P = nat a div 100" unfolding m_def using P by (rule round_shift_div)
    also have "int (nat a div 100) = a div 100" using pos by (simp add: zdiv_int)
    finally show ?thesis .
  qed
  ultimately show ?thesis by (simp add: calc_padding_def a_def)
qed

text \<open>A result below \<open>2 ^ 47\<close> can only come from a floor below \<open>2 ^ 47\<close>.\<close>

lemma calc_padding_int_small:
  assumes nonneg: "0 \<le> old * i" and k: "calc_padding old (IntNum i) = Inr k" and small: "k < 2 ^ 47"
  shows "(old * i) div 100 < 2 ^ 47"
proof (rule ccontr)
  define a where "a = old * i"
  assume "\<not> (old * i) div 100 < 2 ^ 47"
  then have "\<not> a div 100 < 140737488355328" by (simp add: a_def)
  then have bigN: "14073748835532800 \<le> a" by arith
  then have big: "2 ^ 47 * 100 \<le> old * i" by (simp add: a_def)
  define x where "x = nat (old * i)"
  have x: "2 ^ 47 * 100 \<le> x" using big by (simp add: x_def le_nat_iff)
  from k obtain m sh where r: "round_binary64 x 100 = Some (m, sh)"
    and f: "float_to_int (PyFloat (sgn (old * i) * int m) sh) = Inr k"
    using nonneg
    by (auto simp: calc_padding_def int_truediv_def x_def split: sum.splits option.splits)
  have "0 < a" using bigN by linarith
  then have "sgn a = 1" by simp
  then have "sgn (old * i) = 1" unfolding a_def .
  with f have f': "float_to_int (PyFloat (int m) sh) = Inr k" by simp
  have "2 ^ 47 * 2 ^ nat (- sh) \<le> m * 2 ^ nat sh"
    using r _ x by (rule round_binary64_lower) simp_all
  from float_to_int_ge [OF this f'] small show False by simp
qed

lemma calc_padding_int_exact:
  assumes "0 \<le> old * i" and "calc_padding old (IntNum i) = Inr k" and "k < 2 ^ 47"
  shows "k = (old * i) div 100"
  using calc_padding_floor [OF assms(1) calc_padding_int_small [OF assms]] assms(2) by simp

lemma int_to_float_100: "int_to_float 100 = Inr (PyFloat 7036874417766400 (- 46))"
  unfolding int_to_float_def round_binary64_def quotient_exponent_def round_half_even_def Let_def
  by (simp add: bit_length.simps)

lemma int_to_float_nonneg:
  "0 \<le> a \<Longrightarrow> int_to_float a = Inr (PyFloat m e) \<Longrightarrow> 0 \<le> m"
  by (auto simp: int_to_float_def sgn_if split: option.splits)

lemma make_float_nonneg: "make_float False r = PyFloat m e \<Longrightarrow> 0 \<le> m"
  by (auto simp: make_float_def split: option.splits)

lemma calc_padding_nonneg:
  assumes old: "0 \<le> old" and p: "nonneg p" and k: "calc_padding old p = Inr k"
  shows "0 \<le> k"
proof (cases p)
  case (IntNum i)
  with p have "0 \<le> old * i" using old by simp
  from k obtain m sh where "float_to_int (PyFloat (sgn (old * i) * int m) sh) = Inr k"
    unfolding IntNum
    by (auto simp: calc_padding_def int_truediv_def split: sum.splits option.splits)
  moreover have "0 \<le> sgn (old * i) * int m" using \<open>0 \<le> old * i\<close> by (simp add: sgn_if)
  ultimately show ?thesis by (rule float_to_int_nonneg [rotated])
next
  case (FloatNum f)
  from k obtain o_f x where o: "int_to_float old = Inr o_f"
    and d: "float_truediv (float_mul o_f f) (PyFloat 7036874417766400 (- 46)) = Inr x"
    and fk: "float_to_int x = Inr k"
    unfolding FloatNum
    by (auto simp: calc_padding_def int_to_float_100 split: sum.splits)
  from fk obtain m2 e2 where x: "x = PyFloat m2 e2" by (cases x) simp_all
  from d x obtain m1 e1 where mul: "float_mul o_f f = PyFloat m1 e1"
    by (cases "float_mul o_f f") (auto split: if_splits)
  from mul obtain mo eo mp ep where of: "o_f = PyFloat mo eo" and ff: "f = PyFloat mp ep"
    by (cases o_f; cases f) (auto split: if_splits)
  have "0 \<le> mo" using o old unfolding of by (rule int_to_float_nonneg [rotated])
  moreover have "0 \<le> mp" using p unfolding FloatNum ff by simp
  ultimately have "\<not> mo * mp < 0" by (simp add: mult_nonneg_nonneg not_less)
  with mul have "0 \<le> m1" unfolding of ff by (auto dest: make_float_nonneg)
  then have "0 \<le> m2" using d unfolding mul x
    by (auto dest: make_float_nonneg split: if_splits)
  then show ?thesis using fk unfolding x by (rule float_to_int_nonneg)
qed

section \<open>The padding of a float percentage\<close>

lemma powi_nonneg: "0 \<le> e \<Longrightarrow> (2::rat) powi e = 2 ^ nat e"
  by (simp add: power_int_def)

lemma powi_neg:
  assumes "\<not> 0 \<le> e"
  shows "(2::rat) powi e = 1 / 2 ^ nat (- e)"
proof -
  have "(2::rat) powi e = inverse 2 ^ nat (- e)" using assms by (simp add: power_int_def)
  also have "\<dots> = inverse (2 ^ nat (- e))" by (rule power_inverse)
  also have "\<dots> = 1 / 2 ^ nat (- e)" by (rule inverse_eq_divide)
  finally show ?thesis .
qed

lemma float_to_int_floor:
  assumes "0 \<le> m"
  shows "float_to_int (PyFloat m e) = Inr \<lfloor>float_value (PyFloat m e)\<rfloor>"
proof (cases "0 \<le> e")
  case True
  have "float_value (PyFloat m e) = of_int (m * 2 ^ nat e)"
    using True by (simp add: powi_nonneg)
  then have "\<lfloor>float_value (PyFloat m e)\<rfloor> = m * 2 ^ nat e" by (simp only: floor_of_int)
  then show ?thesis using True by simp
next
  case False
  have "float_value (PyFloat m e) = of_int m / of_int (2 ^ nat (- e))"
    using False by (simp add: powi_neg)
  then have "\<lfloor>float_value (PyFloat m e)\<rfloor> = m div 2 ^ nat (- e)"
    by (simp only: floor_divide_of_int_eq)
  then show ?thesis using False assms by simp
qed

lemma nat_le_value:
  "(N * 2 ^ nat (- sh) \<le> m * 2 ^ nat sh) \<longleftrightarrow> ((of_nat N :: rat) \<le> float_value (PyFloat (int m) sh))"
proof (cases "0 \<le> sh")
  case True
  have "((of_nat N :: rat) \<le> of_nat (m * 2 ^ nat sh)) = (N \<le> m * 2 ^ nat sh)"
    by (rule of_nat_le_iff)
  then show ?thesis using True by (simp add: powi_nonneg)
next
  case False
  have "((of_nat (N * 2 ^ nat (- sh)) :: rat) \<le> of_nat m) = (N * 2 ^ nat (- sh) \<le> m)"
    by (rule of_nat_le_iff)
  then show ?thesis using False by (simp add: powi_neg field_simps)
qed

lemma value_le_nat:
  "(m * 2 ^ nat sh \<le> N * 2 ^ nat (- sh)) \<longleftrightarrow> (float_value (PyFloat (int m) sh) \<le> (of_nat N :: rat))"
proof (cases "0 \<le> sh")
  case True
  have "((of_nat (m * 2 ^ nat sh) :: rat) \<le> of_nat N) = (m * 2 ^ nat sh \<le> N)"
    by (rule of_nat_le_iff)
  then show ?thesis using True by (simp add: powi_nonneg)
next
  case False
  have "((of_nat m :: rat) \<le> of_nat (N * 2 ^ nat (- sh))) = (m \<le> N * 2 ^ nat (- sh))"
    by (rule of_nat_le_iff)
  then show ?thesis using False by (simp add: powi_neg field_simps)
qed

lemma nat_mult_le_rat:
  assumes "0 < y"
  shows "(N * y \<le> x) \<longleftrightarrow> ((of_nat N :: rat) \<le> of_nat x / of_nat y)"
proof -
  have "((of_nat (N * y) :: rat) \<le> of_nat x) = (N * y \<le> x)" by (rule of_nat_le_iff)
  then show ?thesis using assms by (simp add: pos_le_divide_eq)
qed

lemma rat_le_nat_mult:
  assumes "0 < y"
  shows "(x \<le> N * y) \<longleftrightarrow> ((of_nat x :: rat) / of_nat y \<le> of_nat N)"
proof -
  have "((of_nat x :: rat) \<le> of_nat (N * y)) = (x \<le> N * y)" by (rule of_nat_le_iff)
  then show ?thesis using assms by (simp add: pos_divide_le_eq)
qed

text \<open>Rounding is monotone against every integer below \<open>2 ^ 53\<close>.\<close>

lemma round_value_ge:
  assumes "round_binary64 x y = Some (m, sh)" and "0 < y"
    and "(of_nat N :: rat) \<le> of_nat x / of_nat y" and "N < 2 ^ 53"
  shows "(of_nat N :: rat) \<le> float_value (PyFloat (int m) sh)"
  using round_binary64_lower [OF assms(1,2) _ assms(4)] assms(3)
  unfolding nat_mult_le_rat [OF assms(2)] nat_le_value by blast

lemma round_value_le:
  assumes "round_binary64 x y = Some (m, sh)" and "0 < y"
    and "(of_nat x :: rat) / of_nat y \<le> of_nat N" and "N < 2 ^ 53"
  shows "float_value (PyFloat (int m) sh) \<le> (of_nat N :: rat)"
  using round_binary64_upper [OF assms(1,2) _ assms(4)] assms(3)
  unfolding rat_le_nat_mult [OF assms(2)] value_le_nat by blast

lemma fraction_value:
  "0 < snd (fraction m e) \<and>
   (of_nat (fst (fraction m e)) :: rat) / of_nat (snd (fraction m e)) = of_nat m * 2 powi e"
  by (cases "0 \<le> e") (simp_all add: fraction_def powi_nonneg powi_neg)

lemma int_to_float_value:
  assumes x: "int_to_float a = Inr x" and a: "0 \<le> a" "a < 2 ^ 53"
  shows "\<exists>m s. x = PyFloat (int m) s \<and> float_value x = of_int a"
proof -
  from x obtain m s where r: "round_binary64 (nat a) 1 = Some (m, s)"
    and xm: "x = PyFloat (sgn a * int m) s"
    using a(1) by (auto simp: int_to_float_def split: option.splits)
  have "sgn a * int m = int m"
  proof (cases "a = 0")
    case True
    with r show ?thesis by (simp add: round_binary64_zero)
  next
    case False
    with a(1) show ?thesis by (simp add: sgn_if)
  qed
  with xm have xm': "x = PyFloat (int m) s" by simp
  have N: "nat a < 2 ^ 53" using a by (simp add: nat_less_iff)
  have "(of_nat (nat a) :: rat) \<le> float_value (PyFloat (int m) s)"
    using r _ _ N by (rule round_value_ge) simp_all
  moreover have "float_value (PyFloat (int m) s) \<le> (of_nat (nat a) :: rat)"
    using r _ _ N by (rule round_value_le) simp_all
  ultimately have "float_value (PyFloat (int m) s) = of_nat (nat a)" by (rule antisym [rotated])
  then have "float_value x = of_int a" using a(1) xm' by simp
  with xm' show ?thesis by blast
qed

lemma float_mul_value:
  assumes x: "float_mul (PyFloat (int a) e1) (PyFloat b e2) = PyFloat m' s" and b: "0 \<le> b"
  shows "\<exists>m xx yy. m' = int m \<and> round_binary64 xx yy = Some (m, s) \<and> 0 < yy \<and>
           (of_nat xx :: rat) / of_nat yy
             = float_value (PyFloat (int a) e1) * float_value (PyFloat b e2)"
proof -
  define n where "n = a * nat b"
  have abs: "nat \<bar>int a * b\<bar> = n" using b by (simp add: n_def abs_mult nat_mult_distrib)
  have neg: "\<not> int a * b < 0" using b by (simp add: mult_nonneg_nonneg not_less)
  from x have mk: "make_float False
      (round_binary64 (fst (fraction n (e1 + e2))) (snd (fraction n (e1 + e2)))) = PyFloat m' s"
    by (simp add: abs neg)
  then obtain m where r: "round_binary64 (fst (fraction n (e1 + e2))) (snd (fraction n (e1 + e2)))
      = Some (m, s)" and m: "m' = int m"
    by (auto simp: make_float_def split: option.splits)
  have "(of_nat n :: rat) * 2 powi (e1 + e2) = of_nat a * of_int b * (2 powi e1 * 2 powi e2)"
    using b by (simp add: n_def power_int_add)
  then have "(of_nat (fst (fraction n (e1 + e2))) :: rat) / of_nat (snd (fraction n (e1 + e2)))
      = float_value (PyFloat (int a) e1) * float_value (PyFloat b e2)"
    using fraction_value [of n "e1 + e2"] by (simp add: mult_ac)
  with r m fraction_value [of n "e1 + e2"] show ?thesis by blast
qed

lemma float_truediv_hundred_value:
  assumes x: "float_truediv (PyFloat (int m1) s1) (PyFloat 7036874417766400 (- 46)) = Inr (PyFloat m' s)"
  shows "\<exists>m xx yy. m' = int m \<and> round_binary64 xx yy = Some (m, s) \<and> 0 < yy \<and>
           (of_nat xx :: rat) / of_nat yy = float_value (PyFloat (int m1) s1) / 100"
proof (cases "0 \<le> s1 + 46")
  case True
  define xx where "xx = m1 * 2 ^ nat (s1 + 46)"
  define yy where "yy = (7036874417766400 :: nat)"
  from x True have "make_float False (round_binary64 xx yy) = PyFloat m' s"
    by (simp add: xx_def yy_def)
  then obtain m where r: "round_binary64 xx yy = Some (m, s)" and m: "m' = int m"
    by (auto simp: make_float_def split: option.splits)
  have "(2::rat) powi (s1 + 46) = 2 powi s1 * 2 powi 46" by (simp add: power_int_add)
  then have "(2::rat) ^ nat (s1 + 46) = 2 powi s1 * 70368744177664"
    using True by (simp add: powi_nonneg)
  then have "(of_nat xx :: rat) / of_nat yy = float_value (PyFloat (int m1) s1) / 100"
    by (simp add: xx_def yy_def)
  moreover have "0 < yy" by (simp add: yy_def)
  ultimately show ?thesis using r m by blast
next
  case False
  define xx where "xx = m1"
  define yy where "yy = (7036874417766400 :: nat) * 2 ^ nat (- 46 - s1)"
  from x False have "make_float False (round_binary64 xx yy) = PyFloat m' s"
    by (simp add: xx_def yy_def)
  then obtain m where r: "round_binary64 xx yy = Some (m, s)" and m: "m' = int m"
    by (auto simp: make_float_def split: option.splits)
  have "(2::rat) powi (- 46) = 2 powi s1 * 2 powi (- 46 - s1)"
    by (simp add: power_int_add [symmetric])
  moreover have "(2::rat) powi (- 46 - s1) = 2 ^ nat (- 46 - s1)"
    using False by (simp add: powi_nonneg)
  moreover have "(2::rat) powi (- 46) = 1 / 70368744177664"
    by (simp add: powi_neg)
  ultimately have "(2::rat) powi s1 * 2 ^ nat (- 46 - s1) = 1 / 70368744177664" by simp
  then have "(2::rat) powi s1 = 1 / (70368744177664 * 2 ^ nat (- 46 - s1))"
    by (simp add: field_simps)
  then have "(of_nat xx :: rat) / of_nat yy = float_value (PyFloat (int m1) s1) / 100"
    by (simp add: xx_def yy_def)
  moreover have "0 < yy" by (simp add: yy_def)
  ultimately show ?thesis using r m by blast
qed

lemma float_padding_path:
  assumes k: "calc_padding old (FloatNum (PyFloat mp ep)) = Inr k"
    and old: "0 \<le> old" "old < 2 ^ 53" and mp: "0 \<le> mp"
  shows "\<exists>m1 s1 x1 y1 m2 s2 x2 y2.
           round_binary64 x1 y1 = Some (m1, s1) \<and> 0 < y1 \<and>
           (of_nat x1 :: rat) / of_nat y1 = of_int old * float_value (PyFloat mp ep) \<and>
           round_binary64 x2 y2 = Some (m2, s2) \<and> 0 < y2 \<and>
           (of_nat x2 :: rat) / of_nat y2 = float_value (PyFloat (int m1) s1) / 100 \<and>
           k = \<lfloor>float_value (PyFloat (int m2) s2)\<rfloor>"
proof -
  from k obtain o_f x where o: "int_to_float old = Inr o_f"
    and d: "float_truediv (float_mul o_f (PyFloat mp ep)) (PyFloat 7036874417766400 (- 46)) = Inr x"
    and fk: "float_to_int x = Inr k"
    by (auto simp: calc_padding_def int_to_float_100 split: sum.splits)
  from int_to_float_value [OF o old] obtain mo so where
    of: "o_f = PyFloat (int mo) so" and vo: "float_value o_f = of_int old" by blast
  from fk obtain m2' s2 where x: "x = PyFloat m2' s2" by (cases x) simp_all
  from d x obtain m1' s1 where mul: "float_mul o_f (PyFloat mp ep) = PyFloat m1' s1"
    by (cases "float_mul o_f (PyFloat mp ep)") (auto split: if_splits)
  from float_mul_value [OF mul [unfolded of] mp] obtain m1 x1 y1 where
    m1: "m1' = int m1" and r1: "round_binary64 x1 y1 = Some (m1, s1)" and y1: "0 < y1"
    and v1: "(of_nat x1 :: rat) / of_nat y1
               = float_value (PyFloat (int mo) so) * float_value (PyFloat mp ep)"
    by blast
  from float_truediv_hundred_value [OF d [unfolded mul m1 x]] obtain m2 x2 y2 where
    m2: "m2' = int m2" and r2: "round_binary64 x2 y2 = Some (m2, s2)" and y2: "0 < y2"
    and v2: "(of_nat x2 :: rat) / of_nat y2 = float_value (PyFloat (int m1) s1) / 100"
    by blast
  have "k = \<lfloor>float_value (PyFloat (int m2) s2)\<rfloor>"
    using fk unfolding x m2 by (simp only: float_to_int_floor [OF of_nat_0_le_iff] sum.inject)
  moreover have "(of_nat x1 :: rat) / of_nat y1 = of_int old * float_value (PyFloat mp ep)"
    using v1 vo of by simp
  ultimately show ?thesis using r1 y1 r2 y2 v2 by blast
qed

lemma float_padding_ge:
  assumes k: "calc_padding old (FloatNum (PyFloat mp ep)) = Inr k"
    and old: "0 \<le> old" "old < 2 ^ 53" and mp: "0 \<le> mp"
    and N: "(of_nat N :: rat) \<le> of_int old * float_value (PyFloat mp ep) / 100"
    and small: "100 * N < 2 ^ 53"
  shows "int N \<le> k"
proof -
  from float_padding_path [OF k old mp] obtain m1 s1 x1 y1 m2 s2 x2 y2 where
    r1: "round_binary64 x1 y1 = Some (m1, s1)" and y1: "0 < y1"
    and v1: "(of_nat x1 :: rat) / of_nat y1 = of_int old * float_value (PyFloat mp ep)"
    and r2: "round_binary64 x2 y2 = Some (m2, s2)" and y2: "0 < y2"
    and v2: "(of_nat x2 :: rat) / of_nat y2 = float_value (PyFloat (int m1) s1) / 100"
    and kf: "k = \<lfloor>float_value (PyFloat (int m2) s2)\<rfloor>"
    by blast
  have "(of_nat (100 * N) :: rat) \<le> of_nat x1 / of_nat y1" using N unfolding v1 by simp
  then have "(of_nat (100 * N) :: rat) \<le> float_value (PyFloat (int m1) s1)"
    using r1 y1 small by (intro round_value_ge)
  then have "(of_nat N :: rat) \<le> of_nat x2 / of_nat y2" unfolding v2 by simp
  then have "(of_nat N :: rat) \<le> float_value (PyFloat (int m2) s2)"
    using r2 y2 small by (intro round_value_ge) simp_all
  then have "(of_int (int N) :: rat) \<le> float_value (PyFloat (int m2) s2)" by simp
  then show ?thesis unfolding kf by (simp only: le_floor_iff)
qed

lemma float_padding_le:
  assumes k: "calc_padding old (FloatNum (PyFloat mp ep)) = Inr k"
    and old: "0 \<le> old" "old < 2 ^ 53" and mp: "0 \<le> mp"
    and N: "of_int old * float_value (PyFloat mp ep) / 100 \<le> (of_nat N :: rat)"
    and small: "100 * N < 2 ^ 53"
  shows "k \<le> int N"
proof -
  from float_padding_path [OF k old mp] obtain m1 s1 x1 y1 m2 s2 x2 y2 where
    r1: "round_binary64 x1 y1 = Some (m1, s1)" and y1: "0 < y1"
    and v1: "(of_nat x1 :: rat) / of_nat y1 = of_int old * float_value (PyFloat mp ep)"
    and r2: "round_binary64 x2 y2 = Some (m2, s2)" and y2: "0 < y2"
    and v2: "(of_nat x2 :: rat) / of_nat y2 = float_value (PyFloat (int m1) s1) / 100"
    and kf: "k = \<lfloor>float_value (PyFloat (int m2) s2)\<rfloor>"
    by blast
  have "(of_nat x1 :: rat) / of_nat y1 \<le> of_nat (100 * N)" using N unfolding v1 by simp
  then have "float_value (PyFloat (int m1) s1) \<le> (of_nat (100 * N) :: rat)"
    using r1 y1 small by (intro round_value_le)
  then have "(of_nat x2 :: rat) / of_nat y2 \<le> of_nat N" unfolding v2 by simp
  then have "float_value (PyFloat (int m2) s2) \<le> (of_nat N :: rat)"
    using r2 y2 small by (intro round_value_le) simp_all
  then have "float_value (PyFloat (int m2) s2) \<le> (of_int (int N) :: rat)" by simp
  then have "\<lfloor>float_value (PyFloat (int m2) s2)\<rfloor> \<le> \<lfloor>(of_int (int N) :: rat)\<rfloor>"
    by (rule floor_mono)
  then show ?thesis unfolding kf by simp
qed

text \<open>
  With a float percentage the computed padding is the floor or the floor plus one,
  whenever it fits a canvas.
\<close>

lemma calc_padding_float_bounds:
  assumes k: "calc_padding old (FloatNum (PyFloat mp ep)) = Inr k"
    and old: "0 \<le> old" "old < 2 ^ 31" and mp: "0 \<le> mp" and small: "k < 2 ^ 31"
  shows "floor_padding old (FloatNum (PyFloat mp ep)) \<le> k \<and>
         k \<le> floor_padding old (FloatNum (PyFloat mp ep)) + 1"
proof -
  define q :: rat where "q = of_int old * float_value (PyFloat mp ep) / 100"
  define n where "n = \<lfloor>q\<rfloor>"
  have n: "floor_padding old (FloatNum (PyFloat mp ep)) = n"
    by (simp add: floor_padding_def n_def q_def)
  have old53: "old < 2 ^ 53" using old(2) by simp
  have "0 \<le> q" using old(1) mp by (simp add: q_def)
  then have n0: "0 \<le> n" by (simp add: n_def)
  have n31: "n < 2 ^ 31"
  proof (rule ccontr)
    assume "\<not> n < 2 ^ 31"
    then have "(2147483648 :: int) \<le> n" by simp
    then have "(of_int 2147483648 :: rat) \<le> q" unfolding n_def by (simp only: le_floor_iff)
    then have "(of_nat 2147483648 :: rat) \<le> q" by simp
    from float_padding_ge [OF k old(1) old53 mp this [unfolded q_def]]
    have "int 2147483648 \<le> k" by simp
    with small show False by simp
  qed
  have "(of_nat (nat n) :: rat) \<le> q" using n0 by (simp add: n_def)
  from float_padding_ge [OF k old(1) old53 mp this [unfolded q_def]] n31 n0
  have lower: "n \<le> k" by simp
  have "q \<le> of_int (n + 1)" unfolding n_def using floor_correct [of q] by simp
  also have "(of_int (n + 1) :: rat) = of_nat (nat n + 1)" using n0 by simp
  finally have "q \<le> (of_nat (nat n + 1) :: rat)" .
  moreover have "nat n < 2147483648" using n31 n0 by simp
  then have "100 * (nat n + 1) < (2::nat) ^ 53" by simp
  ultimately have "k \<le> int (nat n + 1)"
    unfolding q_def by (intro float_padding_le [OF k old(1) old53 mp])
  then have upper: "k \<le> n + 1" using n0 by simp
  show ?thesis using lower upper n by simp
qed

lemma floor_padding_int: "floor_padding old (IntNum i) = (old * i) div 100"
proof -
  have "floor_padding old (IntNum i) = \<lfloor>(of_int (old * i) :: rat) / of_int 100\<rfloor>"
    by (simp add: floor_padding_def)
  also have "\<dots> = (old * i) div 100" by (rule floor_divide_of_int_eq)
  finally show ?thesis .
qed

lemma floor_padding_float:
  "floor_padding old (FloatNum (PyFloat m e)) =
     (if 0 \<le> e then (old * m * 2 ^ nat e) div 100 else (old * m) div (100 * 2 ^ nat (- e)))"
proof (cases "0 \<le> e")
  case True
  have "floor_padding old (FloatNum (PyFloat m e)) = \<lfloor>(of_int (old * m * 2 ^ nat e) :: rat) / of_int 100\<rfloor>"
    using True by (simp add: floor_padding_def powi_nonneg mult.assoc)
  also have "\<dots> = (old * m * 2 ^ nat e) div 100" by (rule floor_divide_of_int_eq)
  finally show ?thesis using True by simp
next
  case False
  have "floor_padding old (FloatNum (PyFloat m e)) =
      \<lfloor>(of_int (old * m) :: rat) / of_int (100 * 2 ^ nat (- e))\<rfloor>"
    using False by (simp add: floor_padding_def powi_neg mult_ac)
  also have "\<dots> = (old * m) div (100 * 2 ^ nat (- e))" by (rule floor_divide_of_int_eq)
  finally show ?thesis using False by simp
qed

lemma int_to_float_finite: "int_to_float a = Inr x \<Longrightarrow> \<exists>m s. x = PyFloat m s"
  by (auto simp: int_to_float_def split: option.splits)

lemma calc_padding_not_finite:
  assumes f: "f = PyInf neg \<or> f = PyNaN"
  shows "calc_padding old (FloatNum f) \<noteq> Inr k"
proof
  assume "calc_padding old (FloatNum f) = Inr k"
  then obtain o_f x where o: "int_to_float old = Inr o_f"
    and d: "float_truediv (float_mul o_f f) (PyFloat 7036874417766400 (- 46)) = Inr x"
    and fk: "float_to_int x = Inr k"
    by (auto simp: calc_padding_def int_to_float_100 split: sum.splits)
  from int_to_float_finite [OF o] obtain m s where "o_f = PyFloat m s" by blast
  with f have "float_mul o_f f = PyNaN \<or> (\<exists>n. float_mul o_f f = PyInf n)"
    by (cases "m = 0") auto
  with d have "x = PyNaN \<or> (\<exists>n. x = PyInf n)" by auto
  with fk show False by auto
qed

text \<open>
  The padding of lines 27 and 28 against the specification's floor, for every number:
  never below the floor, at most one above it, and the floor itself for an integer.
\<close>

lemma calc_padding_bounds:
  assumes k: "calc_padding old p = Inr k" and old: "0 \<le> old" "old < 2 ^ 31"
    and p: "nonneg p" and small: "k < 2 ^ 31"
  shows "floor_padding old p \<le> k" and "k \<le> floor_padding old p + 1"
    and "p = IntNum i \<Longrightarrow> k = floor_padding old p"
proof -
  have "floor_padding old p \<le> k \<and> k \<le> floor_padding old p + 1 \<and>
      (p = IntNum i \<longrightarrow> k = floor_padding old p)"
  proof (cases p)
    case (IntNum j)
    have "0 \<le> old * j" using old(1) p IntNum by simp
    moreover have "k < 2 ^ 47" using small by simp
    ultimately have "k = (old * j) div 100"
      using k unfolding IntNum by (intro calc_padding_int_exact)
    then show ?thesis by (simp add: IntNum floor_padding_int)
  next
    case (FloatNum f)
    show ?thesis
    proof (cases f)
      case (PyFloat mp ep)
      then show ?thesis
        using calc_padding_float_bounds [of old mp ep k] k old p small FloatNum by simp
    next
      case (PyInf neg)
      with k FloatNum show ?thesis using calc_padding_not_finite [where f = f and old = old and k = k] by simp
    next
      case PyNaN
      with k FloatNum show ?thesis using calc_padding_not_finite [where f = f and old = old and k = k] by simp
    qed
  qed
  then show "floor_padding old p \<le> k" and "k \<le> floor_padding old p + 1"
    and "p = IntNum i \<Longrightarrow> k = floor_padding old p"
    by simp_all
qed

section \<open>The library calls\<close>

lemma isize_as_rgba: "isize (as_rgba lib img0) = isize img0"
  by (simp add: Image_convert_def)

lemma mode_as_rgba: "mode (as_rgba lib img0) = ''RGBA''"
  by (simp add: Image_convert_def)

lemma isize_paste: "isize (Image_paste lib dst src box m) = isize dst"
  by (simp add: Image_paste_def)

lemma mode_paste: "mode (Image_paste lib dst src box m) = mode dst"
  by (simp add: Image_paste_def)

lemma Image_new_Inr:
  "Image_new lib m sz color = Inr canvas \<Longrightarrow>
     mode canvas = m \<and> isize canvas = sz \<and> getpixel canvas = (\<lambda>xy. color) \<and>
     0 \<le> fst sz \<and> 0 \<le> snd sz \<and> fst sz < 2 ^ 31 \<and> snd sz < 2 ^ 31"
  by (auto simp: Image_new_def split: if_splits option.splits)

lemma Image_resize_Inr:
  "Image_resize lib img sz = Inr resized \<Longrightarrow> isize resized = sz \<and> mode resized = mode img"
  by (auto simp: Image_resize_def split: option.splits)

lemma print_all_None: "print_all lib ls w = (None, w') \<Longrightarrow> w' = w\<lparr>stdout := stdout w @ ls\<rparr>"
proof (induction ls arbitrary: w)
  case Nil
  then show ?case by simp
next
  case (Cons l ls)
  from Cons.prems obtain w1 where p: "print lib l w = (None, w1)"
    and rest: "print_all lib ls w1 = (None, w')"
    by (auto split: prod.splits option.splits)
  from p have "w1 = w\<lparr>stdout := stdout w @ [l]\<rparr>"
    by (auto simp: print_def split: option.splits)
  with Cons.IH [OF rest] show ?case by simp
qed

lemma print_all_ok:
  assumes "\<And>out line. print_error lib out line = None"
  shows "print_all lib ls w = (None, w\<lparr>stdout := stdout w @ ls\<rparr>)"
proof (induction ls arbitrary: w)
  case Nil
  then show ?case by simp
next
  case (Cons l ls)
  have "print lib l w = (None, w\<lparr>stdout := stdout w @ [l]\<rparr>)"
    by (simp add: print_def assms)
  then show ?case by (simp add: Cons.IH)
qed

lemma print_keeps: "files (snd (print lib l w)) = files w \<and> stderr (snd (print lib l w)) = stderr w"
  by (simp add: print_def split: option.splits)

lemma print_all_keeps:
  "files (snd (print_all lib ls w)) = files w \<and> stderr (snd (print_all lib ls w)) = stderr w"
proof (induction ls arbitrary: w)
  case Nil
  then show ?case by simp
next
  case (Cons l ls)
  show ?case
  proof (cases "print lib l w")
    case (Pair r w1)
    with print_keeps [of lib l w] have k: "files w1 = files w" "stderr w1 = stderr w" by simp_all
    show ?thesis
    proof (cases r)
      case None
      with Pair Cons.IH [of w1] k show ?thesis by simp
    next
      case (Some e)
      with Pair k show ?thesis by simp
    qed
  qed
qed

text \<open>A call that gets as far as a successful save ends as its four prints end.\<close>

lemma add_padding_saved:
  assumes "files w input_path = Some content" and "decode lib content = Inr img0"
    and "calc_padding (fst (isize img0)) p = Inr px"
    and "calc_padding (snd (isize img0)) p = Inr py"
    and "Image_new lib ''RGBA'' (fst (isize img0) + 2 * px, snd (isize img0) + 2 * py) (0, 0, 0, 0)
           = Inr canvas"
    and "Image_resize lib (as_rgba lib img0) (isize img0) = Inr resized"
    and "save_error lib (files w) output_path (Image_paste lib canvas resized (px, py) resized) = None"
  shows "add_padding lib input_path output_path p w =
           (case print_all lib (report lib output_path p (isize img0)
                   (fst (isize img0) + 2 * px, snd (isize img0) + 2 * py) (px, py))
                   (w\<lparr>files := (files w)(output_path \<mapsto>
                       encode_png lib (Image_paste lib canvas resized (px, py) resized))\<rparr>) of
              (Some e, w'') \<Rightarrow> (Inl e, w'')
            | (None, w'') \<Rightarrow> (Inr (), w''))"
  unfolding add_padding_def Image_open_def Image_save_def Let_def isize_as_rgba
  using assms by simp

lemma add_padding_Inr_iff:
  "add_padding lib input_path output_path p w = (Inr (), w') \<longleftrightarrow>
     (\<exists>content img0 px py canvas resized.
        files w input_path = Some content \<and> decode lib content = Inr img0 \<and>
        calc_padding (fst (isize img0)) p = Inr px \<and>
        calc_padding (snd (isize img0)) p = Inr py \<and>
        Image_new lib ''RGBA'' (fst (isize img0) + 2 * px, snd (isize img0) + 2 * py) (0, 0, 0, 0)
          = Inr canvas \<and>
        Image_resize lib (as_rgba lib img0) (isize img0) = Inr resized \<and>
        save_error lib (files w) output_path (Image_paste lib canvas resized (px, py) resized)
          = None \<and>
        print_all lib (report lib output_path p (isize img0)
                   (fst (isize img0) + 2 * px, snd (isize img0) + 2 * py) (px, py))
          (w\<lparr>files := (files w)(output_path \<mapsto>
               encode_png lib (Image_paste lib canvas resized (px, py) resized))\<rparr>) = (None, w'))"
  unfolding add_padding_def Image_open_def Image_save_def Let_def isize_as_rgba
  by (auto split: option.splits sum.splits prod.splits)

section \<open>Worked values and complete runs\<close>

lemma sample_image_fields:
  "isize (sample_image W H) = (W, H)" "mode (sample_image W H) = ''RGBA''"
  by (simp_all add: sample_image_def)

lemma example_roundtrip:
  "decode example_pil (encode_png example_pil img) = Inr (sample_image (fst (isize img)) (snd (isize img)))"
  by (simp add: example_pil_def count_char_def)

lemma example_fields:
  "alloc_error example_pil sz = None" "resize_error example_pil old sz = None"
  "save_error example_pil fs path img = None" "print_error example_pil out line = None"
  by (simp_all add: example_pil_def)

lemma example_file:
  "files (example_world W H) ''assets/icon/gitvault.png'' = Some (encode_png example_pil (sample_image W H))"
  by (simp add: example_world_def)

lemma example_decode:
  "decode example_pil (encode_png example_pil (sample_image W H)) = Inr (sample_image W H)"
  by (simp add: example_roundtrip) (simp add: sample_image_def)

lemma example_encode_size:
  "isize img = (W, H) \<Longrightarrow> encode_png example_pil img = encode_png example_pil (sample_image W H)"
  by (simp add: example_pil_def sample_image_def)

text \<open>Worked values of lines 27 and 28: 70/3 and 10.1 are the floats nearest to them.\<close>

lemma calc_padding_30_float: "calc_padding 30 (FloatNum (PyFloat 6567749456581973 (- 48))) = Inr 7"
  unfolding calc_padding_def int_to_float_def round_binary64_def quotient_exponent_def
    round_half_even_def fraction_def make_float_def Let_def
  apply (simp add: bit_length.simps)
  unfolding round_binary64_def quotient_exponent_def round_half_even_def fraction_def
    make_float_def Let_def
  apply (simp add: bit_length.simps)
  done

lemma calc_padding_1000_float: "calc_padding 1000 (FloatNum (PyFloat 5685794529555251 (- 49))) = Inr 101"
  unfolding calc_padding_def int_to_float_def round_binary64_def quotient_exponent_def
    round_half_even_def fraction_def make_float_def Let_def
  apply (simp add: bit_length.simps)
  unfolding round_binary64_def quotient_exponent_def round_half_even_def fraction_def
    make_float_def Let_def
  apply (simp add: bit_length.simps)
  done

text \<open>A call whose library operations up to the save do not fail writes the padded image.\<close>

lemma add_padding_run:
  assumes "files w input_path = Some content" and "decode lib content = Inr img0"
    and "calc_padding (fst (isize img0)) p = Inr px"
    and "calc_padding (snd (isize img0)) p = Inr py"
    and "0 \<le> fst (isize img0) + 2 * px" and "0 \<le> snd (isize img0) + 2 * py"
    and "fst (isize img0) + 2 * px < 2 ^ 31" and "snd (isize img0) + 2 * py < 2 ^ 31"
    and "alloc_error lib (fst (isize img0) + 2 * px, snd (isize img0) + 2 * py) = None"
    and "resize_error lib (isize img0) (isize img0) = None"
    and "\<And>img. save_error lib (files w) output_path img = None"
  shows "\<exists>r w' out. add_padding lib input_path output_path p w = (r, w') \<and>
           files w' output_path = Some (encode_png lib out) \<and> mode out = ''RGBA'' \<and>
           isize out = (fst (isize img0) + 2 * px, snd (isize img0) + 2 * py) \<and>
           ((\<forall>so line. print_error lib so line = None) \<longrightarrow> r = Inr ())"
proof -
  let ?sz = "(fst (isize img0) + 2 * px, snd (isize img0) + 2 * py)"
  define canvas where "canvas = \<lparr>mode = ''RGBA'', isize = ?sz, getpixel = (\<lambda>xy. (0, 0, 0, 0))\<rparr>"
  define resized where
    "resized = \<lparr>mode = mode (as_rgba lib img0), isize = isize img0,
                 getpixel = resample lib (as_rgba lib img0) (isize img0)\<rparr>"
  define out where "out = Image_paste lib canvas resized (px, py) resized"
  define ws where "ws = w\<lparr>files := (files w)(output_path \<mapsto> encode_png lib out)\<rparr>"
  define lines where "lines = report lib output_path p (isize img0) ?sz (px, py)"
  have new: "Image_new lib ''RGBA'' ?sz (0, 0, 0, 0) = Inr canvas"
    using assms(5-9) by (simp add: Image_new_def canvas_def)
  have rs: "Image_resize lib (as_rgba lib img0) (isize img0) = Inr resized"
    using assms(10) by (simp add: Image_resize_def resized_def isize_as_rgba)
  have run: "add_padding lib input_path output_path p w =
      (case print_all lib lines ws of (Some e, w'') \<Rightarrow> (Inl e, w'') | (None, w'') \<Rightarrow> (Inr (), w''))"
    unfolding lines_def ws_def out_def
    using assms(1-4) new rs assms(11) by (rule add_padding_saved)
  define r where "r = (case fst (print_all lib lines ws) of Some e \<Rightarrow> Inl e | None \<Rightarrow> Inr ())"
  have r: "add_padding lib input_path output_path p w = (r, snd (print_all lib lines ws))"
    unfolding run r_def by (cases "print_all lib lines ws") (simp split: option.splits)
  have "files (snd (print_all lib lines ws)) output_path = Some (encode_png lib out)"
    using print_all_keeps [of lib lines ws] by (simp add: ws_def)
  moreover have "mode out = ''RGBA''" "isize out = ?sz"
    by (simp_all add: out_def isize_paste mode_paste canvas_def)
  moreover have "(\<forall>so line. print_error lib so line = None) \<longrightarrow> r = Inr ()"
  proof
    assume "\<forall>so line. print_error lib so line = None"
    then have "print_all lib lines ws = (None, ws\<lparr>stdout := stdout ws @ lines\<rparr>)"
      by (intro print_all_ok) simp
    then show "r = Inr ()" by (simp add: r_def)
  qed
  ultimately show ?thesis using r by blast
qed

text \<open>
  Claim C4. With \<open>padding_percent = 0\<close> a call whose library operations up to the save do
  not fail writes an output of exactly the size of the input, and returns normally when
  its four prints succeed.
\<close>
theorem zero_padding_keeps_size:
  assumes "files w input_path = Some content" and "decode lib content = Inr img0"
    and "0 \<le> fst (isize img0)" and "0 \<le> snd (isize img0)"
    and "fst (isize img0) < 2 ^ 31" and "snd (isize img0) < 2 ^ 31"
    and "alloc_error lib (isize img0) = None"
    and "resize_error lib (isize img0) (isize img0) = None"
    and "\<And>img. save_error lib (files w) output_path img = None"
  shows "\<exists>r w' out. add_padding lib input_path output_path (IntNum 0) w = (r, w') \<and>
           files w' output_path = Some (encode_png lib out) \<and> isize out = isize img0 \<and>
           ((\<forall>so line. print_error lib so line = None) \<longrightarrow> r = Inr ())"
proof -
  have z: "calc_padding k (IntNum 0) = Inr 0" for k
    using calc_padding_floor [of k 0] by simp
  have "\<exists>r w' out. add_padding lib input_path output_path (IntNum 0) w = (r, w') \<and>
           files w' output_path = Some (encode_png lib out) \<and> mode out = ''RGBA'' \<and>
           isize out = (fst (isize img0) + 2 * 0, snd (isize img0) + 2 * 0) \<and>
           ((\<forall>so line. print_error lib so line = None) \<longrightarrow> r = Inr ())"
    by (rule add_padding_run [OF assms(1,2) z z]) (use assms in simp_all)
  then obtain r w' out where "add_padding lib input_path output_path (IntNum 0) w = (r, w')"
      "files w' output_path = Some (encode_png lib out)"
      "isize out = (fst (isize img0) + 2 * 0, snd (isize img0) + 2 * 0)"
      "(\<forall>so line. print_error lib so line = None) \<longrightarrow> r = Inr ()"
    by blast
  moreover from this have "isize out = isize img0" by simp
  ultimately show ?thesis by blast
qed

text \<open>The instance \<open>64 \<times> 48\<close>.\<close>
theorem zero_padding_keeps_size_witness:
  "\<exists>w' out. add_padding example_pil ''assets/icon/gitvault.png'' ''out.png'' (IntNum 0)
        (example_world 64 48) = (Inr (), w') \<and>
     files w' ''out.png'' = Some (encode_png example_pil out) \<and> isize out = (64, 48)"
  using zero_padding_keeps_size [of "example_world 64 48" "''assets/icon/gitvault.png''"
      "encode_png example_pil (sample_image 64 48)" example_pil "sample_image 64 48" "''out.png''"]
  by (simp add: example_file example_decode example_fields sample_image_fields) blast

text \<open>
  Claim C5. For a \<open>512 \<times> 512\<close> input and \<open>padding_percent = 20\<close> both paddings are 102
  and the output is \<open>716 \<times> 716\<close>, not \<open>768 \<times> 768\<close>.
\<close>
theorem scenario_512_20:
  assumes "files w input_path = Some content" and "decode lib content = Inr img0"
    and "isize img0 = (512, 512)"
    and "alloc_error lib (716, 716) = None"
    and "resize_error lib (512, 512) (512, 512) = None"
    and "\<And>img. save_error lib (files w) output_path img = None"
  shows "\<exists>r w' out. add_padding lib input_path output_path (IntNum 20) w = (r, w') \<and>
           files w' output_path = Some (encode_png lib out) \<and>
           isize out = (716, 716) \<and> isize out \<noteq> (768, 768) \<and>
           ((\<forall>so line. print_error lib so line = None) \<longrightarrow> r = Inr ())"
proof -
  have p: "calc_padding 512 (IntNum 20) = Inr 102"
    using calc_padding_floor [of 512 20] by simp
  have "\<exists>r w' out. add_padding lib input_path output_path (IntNum 20) w = (r, w') \<and>
           files w' output_path = Some (encode_png lib out) \<and> mode out = ''RGBA'' \<and>
           isize out = (fst (isize img0) + 2 * 102, snd (isize img0) + 2 * 102) \<and>
           ((\<forall>so line. print_error lib so line = None) \<longrightarrow> r = Inr ())"
    by (rule add_padding_run [OF assms(1,2)]) (use assms p in simp_all)
  then obtain r w' out where "add_padding lib input_path output_path (IntNum 20) w = (r, w')"
      "files w' output_path = Some (encode_png lib out)"
      "isize out = (fst (isize img0) + 2 * 102, snd (isize img0) + 2 * 102)"
      "(\<forall>so line. print_error lib so line = None) \<longrightarrow> r = Inr ()"
    by blast
  moreover from this assms(3) have "isize out = (716, 716)" "isize out \<noteq> (768, 768)" by simp_all
  ultimately show ?thesis by blast
qed

text \<open>The entry point's own paths and percentage on a \<open>512 \<times> 512\<close> icon.\<close>
theorem scenario_512_20_witness:
  "\<exists>w' out. add_padding example_pil ''assets/icon/gitvault.png'' ''assets/icon/gitvault_padded.png''
        (IntNum 20) (example_world 512 512) = (Inr (), w') \<and>
     files w' ''assets/icon/gitvault_padded.png'' = Some (encode_png example_pil out) \<and>
     isize out = (716, 716) \<and> isize out \<noteq> (768, 768)"
  using scenario_512_20 [of "example_world 512 512" "''assets/icon/gitvault.png''"
      "encode_png example_pil (sample_image 512 512)" example_pil "sample_image 512 512"
      "''assets/icon/gitvault_padded.png''"]
  by (simp add: example_file example_decode example_fields sample_image_fields) blast

section \<open>Output size\<close>

lemma example_run:
  assumes "calc_padding W p = Inr px" and "calc_padding H p = Inr py"
    and "0 \<le> W + 2 * px" and "0 \<le> H + 2 * py" and "W + 2 * px < 2 ^ 31" and "H + 2 * py < 2 ^ 31"
  shows "\<exists>w'. add_padding example_pil ''assets/icon/gitvault.png'' output_path p (example_world W H)
             = (Inr (), w') \<and>
           files w' output_path = Some (encode_png example_pil (sample_image (W + 2 * px) (H + 2 * py)))"
proof -
  have "\<exists>r w' out. add_padding example_pil ''assets/icon/gitvault.png'' output_path p (example_world W H)
             = (r, w') \<and>
           files w' output_path = Some (encode_png example_pil out) \<and> mode out = ''RGBA'' \<and>
           isize out = (fst (isize (sample_image W H)) + 2 * px, snd (isize (sample_image W H)) + 2 * py) \<and>
           ((\<forall>so line. print_error example_pil so line = None) \<longrightarrow> r = Inr ())"
    by (rule add_padding_run [OF example_file example_decode])
      (use assms in \<open>simp_all add: sample_image_fields example_fields\<close>)
  then obtain r w' out where
      run: "add_padding example_pil ''assets/icon/gitvault.png'' output_path p (example_world W H) = (r, w')"
      and f: "files w' output_path = Some (encode_png example_pil out)"
      and sz: "isize out = (fst (isize (sample_image W H)) + 2 * px, snd (isize (sample_image W H)) + 2 * py)"
      and r: "(\<forall>so line. print_error example_pil so line = None) \<longrightarrow> r = Inr ()"
    by blast
  from r have "r = Inr ()" by (simp add: example_fields)
  moreover have "encode_png example_pil out = encode_png example_pil (sample_image (W + 2 * px) (H + 2 * py))"
    using sz by (intro example_encode_size) (simp add: sample_image_fields)
  ultimately show ?thesis using run f by simp
qed

text \<open>
  Claim C1, as amended. For an input image of size \<open>W \<times> H\<close> and a percentage \<open>p \<ge> 0\<close>,
  an integer or a float, every call that returns normally has written the encoding of an
  RGBA image of size \<open>(W + 2 * px, H + 2 * py)\<close>, where each padding is computed on its own
  axis and lies between \<open>floor (old * p / 100)\<close> and that floor plus one (\<open>p\<close> at its exact
  value); for an integer \<open>p\<close> both paddings are exactly the floor.
\<close>
theorem add_padding_output_size:
  assumes "add_padding lib input_path output_path p w = (Inr (), w')"
    and "files w input_path = Some content" and "decode lib content = Inr img0"
    and "isize img0 = (W, H)" and "0 \<le> W" and "0 \<le> H" and "nonneg p"
  shows "\<exists>out px py. files w' output_path = Some (encode_png lib out) \<and> mode out = ''RGBA'' \<and>
           isize out = (W + 2 * px, H + 2 * py) \<and>
           floor_padding W p \<le> px \<and> px \<le> floor_padding W p + 1 \<and>
           floor_padding H p \<le> py \<and> py \<le> floor_padding H p + 1 \<and>
           ((\<exists>i. p = IntNum i) \<longrightarrow> px = floor_padding W p \<and> py = floor_padding H p)"
proof -
  from assms(1) obtain content' img0' px py canvas resized where
      f: "files w input_path = Some content'" and d: "decode lib content' = Inr img0'"
      and px: "calc_padding (fst (isize img0')) p = Inr px"
      and py: "calc_padding (snd (isize img0')) p = Inr py"
      and new: "Image_new lib ''RGBA'' (fst (isize img0') + 2 * px, snd (isize img0') + 2 * py)
                  (0, 0, 0, 0) = Inr canvas"
      and pr: "print_all lib (report lib output_path p (isize img0')
                   (fst (isize img0') + 2 * px, snd (isize img0') + 2 * py) (px, py))
                 (w\<lparr>files := (files w)(output_path \<mapsto>
                     encode_png lib (Image_paste lib canvas resized (px, py) resized))\<rparr>) = (None, w')"
    unfolding add_padding_Inr_iff by blast
  from f d assms(2,3) have same: "img0' = img0" by simp
  define out where "out = Image_paste lib canvas resized (px, py) resized"
  have px': "calc_padding W p = Inr px" and py': "calc_padding H p = Inr py"
    using px py same assms(4) by simp_all
  have saved: "files w' output_path = Some (encode_png lib out)"
    using print_all_None [OF pr] by (simp add: out_def)
  have cv: "mode canvas = ''RGBA''" "isize canvas = (W + 2 * px, H + 2 * py)"
      "W + 2 * px < 2 ^ 31" "H + 2 * py < 2 ^ 31"
    using Image_new_Inr [OF new] same assms(4) by simp_all
  have out: "mode out = ''RGBA''" "isize out = (W + 2 * px, H + 2 * py)"
    using cv by (simp_all add: out_def isize_paste mode_paste)
  have nn: "0 \<le> px" "0 \<le> py"
    using calc_padding_nonneg [OF assms(5,7) px'] calc_padding_nonneg [OF assms(6,7) py'] by simp_all
  have W: "W < 2 ^ 31" "px < 2 ^ 31" and H: "H < 2 ^ 31" "py < 2 ^ 31"
    using cv nn assms(5,6) by simp_all
  note bx = calc_padding_bounds [OF px' assms(5) W(1) assms(7) W(2)]
  note by' = calc_padding_bounds [OF py' assms(6) H(1) assms(7) H(2)]
  have "(\<exists>i. p = IntNum i) \<longrightarrow> px = floor_padding W p \<and> py = floor_padding H p"
    using bx(3) by'(3) by blast
  with saved out bx(1,2) by'(1,2) show ?thesis by blast
qed

text \<open>The instance \<open>100 \<times> 200\<close> at 15 percent: the output is \<open>130 \<times> 260\<close>.\<close>
theorem add_padding_output_size_witness:
  "\<exists>w' out. add_padding example_pil ''assets/icon/gitvault.png'' ''out.png'' (IntNum 15)
        (example_world 100 200) = (Inr (), w') \<and>
     files w' ''out.png'' = Some (encode_png example_pil out) \<and>
     mode out = ''RGBA'' \<and> isize out = (130, 260) \<and>
     floor_padding 100 (IntNum 15) = 15 \<and> floor_padding 200 (IntNum 15) = 30"
proof -
  have "calc_padding 100 (IntNum 15) = Inr 15" "calc_padding 200 (IntNum 15) = Inr 30"
    using calc_padding_floor [of 100 15] calc_padding_floor [of 200 15] by simp_all
  from example_run [OF this, of "''out.png''"] obtain w' where
      run: "add_padding example_pil ''assets/icon/gitvault.png'' ''out.png'' (IntNum 15)
              (example_world 100 200) = (Inr (), w')"
    by auto
  from add_padding_output_size [OF run example_file example_decode, of 100 200]
  show ?thesis using run by (auto simp: sample_image_fields floor_padding_int)
qed

text \<open>
  Claim C1 as stated, with the floor on every \<open>p \<ge> 0\<close>, fails for a float percentage:
  at \<open>30 \<times> 30\<close> and \<open>p = 70 / 3\<close> (the float \<open>6567749456581973 / 2 ^ 48\<close>) the product
  \<open>30 * p\<close> rounds up to 700, line 27 computes 7 where the floor is 6, and the file written
  holds a \<open>44 \<times> 44\<close> image, not the \<open>42 \<times> 42\<close> one of the formula.
\<close>
theorem float_percent_exceeds_floor:
  "fst (add_padding example_pil ''assets/icon/gitvault.png'' ''out.png''
          (FloatNum (PyFloat 6567749456581973 (- 48))) (example_world 30 30)) = Inr () \<and>
   files (snd (add_padding example_pil ''assets/icon/gitvault.png'' ''out.png''
          (FloatNum (PyFloat 6567749456581973 (- 48))) (example_world 30 30))) ''out.png''
     = Some (encode_png example_pil (sample_image 44 44)) \<and>
   decode example_pil (encode_png example_pil (sample_image 44 44)) = Inr (sample_image 44 44) \<and>
   floor_padding 30 (FloatNum (PyFloat 6567749456581973 (- 48))) = 6 \<and>
   (44 :: int) \<noteq> 30 + 2 * floor_padding 30 (FloatNum (PyFloat 6567749456581973 (- 48)))"
proof -
  from example_run [OF calc_padding_30_float calc_padding_30_float, of "''out.png''"]
  obtain w' where "add_padding example_pil ''assets/icon/gitvault.png'' ''out.png''
          (FloatNum (PyFloat 6567749456581973 (- 48))) (example_world 30 30) = (Inr (), w')"
      "files w' ''out.png'' = Some (encode_png example_pil (sample_image 44 44))"
    by auto
  moreover have "floor_padding 30 (FloatNum (PyFloat 6567749456581973 (- 48))) = 6"
    by (simp add: floor_padding_float)
  ultimately show ?thesis by (simp add: example_decode)
qed

text \<open>
  Claim C9. For \<open>padding_percent \<ge> 0\<close>, an integer or a float, whenever a call returns
  normally its output is at least as wide and at least as high as the input: the
  truncated quotient of a non-negative product is never negative, whatever its rounding.
\<close>
theorem output_not_smaller:
  assumes "add_padding lib input_path output_path p w = (Inr (), w')"
    and "files w input_path = Some content" and "decode lib content = Inr img0"
    and "0 \<le> fst (isize img0)" and "0 \<le> snd (isize img0)" and "nonneg p"
  shows "\<exists>out. files w' output_path = Some (encode_png lib out) \<and>
           fst (isize img0) \<le> fst (isize out) \<and> snd (isize img0) \<le> snd (isize out)"
proof -
  from assms(1) obtain content' img0' px py canvas resized where
      f: "files w input_path = Some content'" and d: "decode lib content' = Inr img0'"
      and px: "calc_padding (fst (isize img0')) p = Inr px"
      and py: "calc_padding (snd (isize img0')) p = Inr py"
      and new: "Image_new lib ''RGBA'' (fst (isize img0') + 2 * px, snd (isize img0') + 2 * py)
                  (0, 0, 0, 0) = Inr canvas"
      and pr: "print_all lib (report lib output_path p (isize img0')
                   (fst (isize img0') + 2 * px, snd (isize img0') + 2 * py) (px, py))
                 (w\<lparr>files := (files w)(output_path \<mapsto>
                     encode_png lib (Image_paste lib canvas resized (px, py) resized))\<rparr>) = (None, w')"
    unfolding add_padding_Inr_iff by blast
  from f d assms(2,3) have same: "img0' = img0" by simp
  have "0 \<le> px" "0 \<le> py"
    using calc_padding_nonneg [OF _ assms(6) px] calc_padding_nonneg [OF _ assms(6) py] assms(4,5) same
    by simp_all
  moreover have "isize (Image_paste lib canvas resized (px, py) resized)
      = (fst (isize img0) + 2 * px, snd (isize img0) + 2 * py)"
    using Image_new_Inr [OF new] same by (simp add: isize_paste)
  moreover have "files w' output_path
      = Some (encode_png lib (Image_paste lib canvas resized (px, py) resized))"
    using print_all_None [OF pr] by simp
  ultimately show ?thesis
    by (intro exI [of _ "Image_paste lib canvas resized (px, py) resized"]) simp
qed

text \<open>The instance \<open>1000 \<times> 1000\<close> at the float 10.1: the output is \<open>1202 \<times> 1202\<close>.\<close>
theorem output_not_smaller_witness:
  "\<exists>w' out. add_padding example_pil ''assets/icon/gitvault.png'' ''out.png''
        (FloatNum (PyFloat 5685794529555251 (- 49))) (example_world 1000 1000) = (Inr (), w') \<and>
     files w' ''out.png'' = Some (encode_png example_pil out) \<and>
     1000 \<le> fst (isize out) \<and> 1000 \<le> snd (isize out)"
proof -
  from example_run [OF calc_padding_1000_float calc_padding_1000_float, of "''out.png''"]
  obtain w' where
      run: "add_padding example_pil ''assets/icon/gitvault.png'' ''out.png''
              (FloatNum (PyFloat 5685794529555251 (- 49))) (example_world 1000 1000) = (Inr (), w')"
    by auto
  from output_not_smaller [OF run example_file example_decode]
  show ?thesis using run by (simp add: sample_image_fields)
qed

end
